theory Spec2Isabelle
  imports Main
begin

section \<open>Host language: loops and arrays\<close>

text \<open>
  The library is JavaScript. An array is a list; an index or a count that the caller
  passes is an \<open>int\<close> (an integer, of either sign), an index that a loop
  computes is a \<open>nat\<close>.

  \<^verbatim>\<open>for (var i = i0; i < l; i++) body\<close> is \<open>for_loop i0 l body s\<close>: the loop state
  \<open>s\<close> holds the variables the body assigns.
\<close>

function for_loop :: "nat \<Rightarrow> nat \<Rightarrow> (nat \<Rightarrow> 's \<Rightarrow> 's) \<Rightarrow> 's \<Rightarrow> 's" where
  "for_loop i l body s = (if i < l then for_loop (Suc i) l body (body i s) else s)"
  by pat_completeness auto
termination
  by (relation "measure (\<lambda>(i, l, body, s). l - i)") auto

declare for_loop.simps [simp del]

text \<open>
  \<^verbatim>\<open>Array(n)\<close> is an array of length \<open>n\<close> whose slots are all holes. A slot is
  \<open>None\<close> while it is a hole and \<open>Some v\<close> once \<^verbatim>\<open>r[i] = v\<close> has run. \<open>filled\<close>
  reads the finished array back (a hole would read as JavaScript's undefined; every
  function below writes every slot before it returns).
\<close>

definition Array :: "nat \<Rightarrow> 'a option list" where
  "Array n = replicate n None"

definition filled :: "'a option list \<Rightarrow> 'a list" where
  "filled r = map the r"

text \<open>
  \<open>slot r i\<close> reads \<^verbatim>\<open>r[i]\<close> from an array under construction.
\<close>

definition slot :: "'a option list \<Rightarrow> nat \<Rightarrow> 'a" where
  "slot r i = the (r ! i)"

text \<open>
  \<^verbatim>\<open>xs.slice(start, end)\<close> and \<^verbatim>\<open>xs.slice(start)\<close> of the host: a negative
  argument counts from the end, and both are clamped to the array.
\<close>

definition js_slice :: "int \<Rightarrow> int \<Rightarrow> 'a list \<Rightarrow> 'a list" where
  "js_slice start end xs =
     (let len = int (length xs);
          k = (if start < 0 then max (len + start) 0 else min start len);
          final = (if end < 0 then max (len + end) 0 else min end len)
      in take (nat (final - k)) (drop (nat k) xs))"

definition js_slice_from :: "int \<Rightarrow> 'a list \<Rightarrow> 'a list" where
  "js_slice_from start xs = js_slice start (int (length xs)) xs"

text \<open>
  \<^verbatim>\<open>xs.splice(start, deleteCount, items...)\<close> of the host, as the contents of \<open>xs\<close>
  after the call.
\<close>

definition js_splice :: "int \<Rightarrow> int \<Rightarrow> 'a list \<Rightarrow> 'a list \<Rightarrow> 'a list" where
  "js_splice start deleteCount items xs =
     (let len = int (length xs);
          k = (if start < 0 then max (len + start) 0 else min start len);
          dc = min (max deleteCount 0) (len - k)
      in take (nat k) xs @ items @ drop (nat (k + dc)) xs)"

text \<open>
  \<^verbatim>\<open>__spreadArrays\<close>, the compiler's helper for \<^verbatim>\<open>[...as]\<close>: a new array holding
  the elements of its arguments.
\<close>

definition spreadArrays :: "'a list list \<Rightarrow> 'a list" where
  "spreadArrays arguments =
     (let il = length arguments;
          s = for_loop 0 il (\<lambda>i s. s + length (arguments ! i)) 0;
          (r, k) = for_loop 0 il
                     (\<lambda>i (r, k).
                        let a = arguments ! i; jl = length a in
                        for_loop 0 jl (\<lambda>j (r, k). (r[k := Some (a ! j)], k + 1)) (r, k))
                     (Array s, 0)
      in filled r)"


definition identity :: "'a \<Rightarrow> 'a" where
  "identity a = a"

section \<open>ReadonlyArray\<close>

subsection \<open>Monoid\<close>

record 'a Semigroup =
  concat_of :: "'a \<Rightarrow> 'a \<Rightarrow> 'a"

record 'a Monoid = "'a Semigroup" +
  empty_of :: "'a"

definition empty_arr :: "'a list" where
  "empty_arr = []"

definition concat_arr :: "'a list \<Rightarrow> 'a list \<Rightarrow> 'a list" where
  "concat_arr x y =
     (let lenx = length x in
      if lenx = 0 then y
      else
        let leny = length y in
        if leny = 0 then x
        else
          let r = Array (lenx + leny);
              r = for_loop 0 lenx (\<lambda>i r. r[i := Some (x ! i)]) r;
              r = for_loop 0 leny (\<lambda>i r. r[i + lenx := Some (y ! i)]) r
          in filled r)"

definition getMonoid :: "'a list Monoid" where
  "getMonoid = \<lparr>concat_of = concat_arr, empty_of = empty_arr\<rparr>"

subsection \<open>Construction, folds and scans\<close>

definition flatten :: "'a list list \<Rightarrow> 'a list" where
  "flatten mma =
     (let len = length mma;
          rLen = for_loop 0 len (\<lambda>i rLen. rLen + length (mma ! i)) 0;
          (r, start) = for_loop 0 len
                         (\<lambda>i (r, start).
                            let arr = mma ! i; l = length arr;
                                r = for_loop 0 l (\<lambda>j r. r[j + start := Some (arr ! j)]) r
                            in (r, start + l))
                         (Array rLen, 0)
      in filled r)"

definition scanLeft :: "'b \<Rightarrow> ('b \<Rightarrow> 'a \<Rightarrow> 'b) \<Rightarrow> 'a list \<Rightarrow> 'b list" where
  "scanLeft b f as =
     (let l = length as;
          r = Array (l + 1);
          r = r[0 := Some b];
          r = for_loop 0 l (\<lambda>i r. r[i + 1 := Some (f (slot r i) (as ! i))]) r
      in filled r)"

definition reduceWithIndex :: "'b \<Rightarrow> (nat \<Rightarrow> 'b \<Rightarrow> 'a \<Rightarrow> 'b) \<Rightarrow> 'a list \<Rightarrow> 'b" where
  "reduceWithIndex b f fa =
     (let l = length fa;
          r = b;
          r = for_loop 0 l (\<lambda>i r. f i r (fa ! i)) r
      in r)"

definition reduce :: "'b \<Rightarrow> ('b \<Rightarrow> 'a \<Rightarrow> 'b) \<Rightarrow> 'a list \<Rightarrow> 'b" where
  "reduce b f = reduceWithIndex b (\<lambda>_ b a. f b a)"

definition isNonEmpty :: "'a list \<Rightarrow> bool" where
  "isNonEmpty as = (length as > 0)"

definition cons :: "'a \<Rightarrow> 'a list \<Rightarrow> 'a list" where
  "cons head tail =
     (let len = length tail;
          r = Array (len + 1);
          r = for_loop 0 len (\<lambda>i r. r[i + 1 := Some (tail ! i)]) r;
          r = r[0 := Some head]
      in filled r)"

definition snoc :: "'a list \<Rightarrow> 'a \<Rightarrow> 'a list" where
  "snoc init end =
     (let len = length init;
          r = Array (len + 1);
          r = for_loop 0 len (\<lambda>i r. r[i := Some (init ! i)]) r;
          r = r[len := Some end]
      in filled r)"

subsection \<open>Indexed access\<close>

text \<open>
  The optional results \<^verbatim>\<open>none\<close> and \<^verbatim>\<open>some(a)\<close> of the Option module are
  \<open>None\<close> and \<open>Some a\<close>.
\<close>

definition isOutOfBound :: "int \<Rightarrow> 'a list \<Rightarrow> bool" where
  "isOutOfBound i as = (i < 0 \<or> i \<ge> int (length as))"

definition lookup :: "int \<Rightarrow> 'a list \<Rightarrow> 'a option" where
  "lookup i as = (if isOutOfBound i as then None else Some (as ! nat i))"

definition unsafeInsertAt :: "int \<Rightarrow> 'a \<Rightarrow> 'a list \<Rightarrow> 'a list" where
  "unsafeInsertAt i a as =
     (let xs = spreadArrays [as];
          xs = js_splice i 0 [a] xs
      in xs)"

definition insertAt :: "int \<Rightarrow> 'a \<Rightarrow> 'a list \<Rightarrow> 'a list option" where
  "insertAt i a as =
     (if i < 0 \<or> i > int (length as) then None else Some (unsafeInsertAt i a as))"

text \<open>
  \<open>unsafeUpdateAt\<close> and \<open>unsafeDeleteAt\<close> are modelled for an index inside the
  array, which is all that \<open>updateAt\<close> and \<open>deleteAt\<close> pass them. (Outside it the
  host would read undefined and grow the copy by holes.) The test \<^verbatim>\<open>as[i] === a\<close> is
  equality of values; where the host's strict equality is finer (two equal objects, or
  NaN), the code copies the array and writes \<open>a\<close> over an equal element, and the
  contents of the result are the same.
\<close>

definition unsafeUpdateAt :: "int \<Rightarrow> 'a \<Rightarrow> 'a list \<Rightarrow> 'a list" where
  "unsafeUpdateAt i a as =
     (if as ! nat i = a then as
      else
        let xs = spreadArrays [as];
            xs = xs[nat i := a]
        in xs)"

definition updateAt :: "int \<Rightarrow> 'a \<Rightarrow> 'a list \<Rightarrow> 'a list option" where
  "updateAt i a as =
     (if isOutOfBound i as then None else Some (unsafeUpdateAt i a as))"

definition unsafeDeleteAt :: "int \<Rightarrow> 'a list \<Rightarrow> 'a list" where
  "unsafeDeleteAt i as =
     (let xs = spreadArrays [as];
          xs = js_splice i 1 [] xs
      in xs)"

definition deleteAt :: "int \<Rightarrow> 'a list \<Rightarrow> 'a list option" where
  "deleteAt i as =
     (if isOutOfBound i as then None else Some (unsafeDeleteAt i as))"

subsection \<open>Functor and monad\<close>

definition of_arr :: "'a \<Rightarrow> 'a list" where
  "of_arr a = [a]"

definition map_arr :: "('a \<Rightarrow> 'b) \<Rightarrow> 'a list \<Rightarrow> 'b list" where
  "map_arr f fa = map (\<lambda>a. f a) fa"

definition chain_arr :: "('a \<Rightarrow> 'b list) \<Rightarrow> 'a list \<Rightarrow> 'b list" where
  "chain_arr f ma =
     (let l = length ma;
          (outLen, temp) = for_loop 0 l
                             (\<lambda>i (outLen, temp).
                                let e = ma ! i; arr = f e
                                in (outLen + length arr, temp[i := Some arr]))
                             (0, Array l);
          (out, start) = for_loop 0 l
                           (\<lambda>i (out, start).
                              let arr = slot temp i; l_1 = length arr;
                                  out = for_loop 0 l_1 (\<lambda>j out. out[j + start := Some (arr ! j)]) out
                              in (out, start + l_1))
                           (Array outLen, 0)
      in filled out)"

subsection \<open>Chopping, chunking, comprehension and unfolding\<close>

text \<open>
  \<open>chop\<close> and \<open>unfold\<close> are \<^verbatim>\<open>while\<close> loops driven by the caller's function.
  A run that never leaves the loop has the value \<open>None\<close>.
\<close>

partial_function (option) chop_loop ::
  "('a list \<Rightarrow> 'b \<times> 'a list) \<Rightarrow> 'b list \<Rightarrow> 'a list \<Rightarrow> 'b list option" where
  "chop_loop f result cs =
     (if isNonEmpty cs
      then (case f cs of (b, c) \<Rightarrow> chop_loop f (result @ [b]) c)
      else Some result)"

declare chop_loop.simps [code]

definition chop :: "('a list \<Rightarrow> 'b \<times> 'a list) \<Rightarrow> 'a list \<Rightarrow> 'b list option" where
  "chop f as = chop_loop f [] as"

definition splitAt :: "int \<Rightarrow> 'a list \<Rightarrow> 'a list \<times> 'a list" where
  "splitAt n as = (js_slice 0 n as, js_slice_from n as)"

definition chunksOf :: "int \<Rightarrow> 'a list \<Rightarrow> 'a list list option" where
  "chunksOf n as =
     (let f = chop (splitAt n) in
      if length as = 0 then Some empty_arr
      else if isOutOfBound (n - 1) as then Some [as]
      else f as)"







section \<open>ReadonlyArray on a store\<close>

text \<open>
  Whether a function mutates its argument is a question about references, so the
  functions that produce a modified array are modelled a second time on a store. The
  store is the list of all arrays allocated so far; a reference is an index into it;
  an allocation appends, so a fresh reference is one that is not below the length of the
  store before the call. A function takes the store and returns its result with the
  store after the call.
\<close>

type_synonym 'a store = "'a option list list"

definition new_Array :: "nat \<Rightarrow> 'a store \<Rightarrow> nat \<times> 'a store" where
  "new_Array n h = (length h, h @ [Array n])"

definition length_of :: "'a store \<Rightarrow> nat \<Rightarrow> nat" where
  "length_of h r = length (h ! r)"

definition read_at :: "'a store \<Rightarrow> nat \<Rightarrow> nat \<Rightarrow> 'a" where
  "read_at h r i = slot (h ! r) i"

definition write_at :: "nat \<Rightarrow> nat \<Rightarrow> 'a \<Rightarrow> 'a store \<Rightarrow> 'a store" where
  "write_at r i v h = h[r := (h ! r)[i := Some v]]"

text \<open>
  The host's methods that work in place: \<^verbatim>\<open>xs.splice\<close>, \<^verbatim>\<open>xs.reverse()\<close> and
  \<^verbatim>\<open>xs.sort(compare)\<close> change the array \<open>xs\<close> refers to; the last two return \<open>xs\<close>.
  The host's sort is stable; it is modelled as insertion sort by the comparator.
\<close>

definition splice_in_place :: "nat \<Rightarrow> int \<Rightarrow> int \<Rightarrow> 'a list \<Rightarrow> 'a store \<Rightarrow> 'a store" where
  "splice_in_place xs start deleteCount items h =
     h[xs := map Some (js_splice start deleteCount items (filled (h ! xs)))]"

definition reverse_in_place :: "nat \<Rightarrow> 'a store \<Rightarrow> nat \<times> 'a store" where
  "reverse_in_place xs h = (xs, h[xs := rev (h ! xs)])"

fun insert_by :: "('a \<Rightarrow> 'a \<Rightarrow> int) \<Rightarrow> 'a \<Rightarrow> 'a list \<Rightarrow> 'a list" where
  "insert_by cmp x [] = [x]"
| "insert_by cmp x (y # ys) = (if cmp x y \<le> 0 then x # y # ys else y # insert_by cmp x ys)"

definition js_sort :: "('a \<Rightarrow> 'a \<Rightarrow> int) \<Rightarrow> 'a list \<Rightarrow> 'a list" where
  "js_sort cmp xs = foldr (insert_by cmp) xs []"

definition sort_in_place :: "('a \<Rightarrow> 'a \<Rightarrow> int) \<Rightarrow> nat \<Rightarrow> 'a store \<Rightarrow> nat \<times> 'a store" where
  "sort_in_place cmp xs h = (xs, h[xs := map Some (js_sort cmp (filled (h ! xs)))])"

record 'a Ord =
  compare_of :: "'a \<Rightarrow> 'a \<Rightarrow> int"

definition spreadArrays_st :: "nat list \<Rightarrow> 'a store \<Rightarrow> nat \<times> 'a store" where
  "spreadArrays_st arguments h =
     (let il = length arguments;
          s = for_loop 0 il (\<lambda>i s. s + length_of h (arguments ! i)) 0;
          (r, h) = new_Array s h;
          (h, k) = for_loop 0 il
                     (\<lambda>i (h, k).
                        let a = arguments ! i; jl = length_of h a in
                        for_loop 0 jl (\<lambda>j (h, k). (write_at r k (read_at h a j) h, k + 1)) (h, k))
                     (h, 0)
      in (r, h))"

definition sort_st :: "'a Ord \<Rightarrow> nat \<Rightarrow> 'a store \<Rightarrow> nat \<times> 'a store" where
  "sort_st ord as h =
     (let (xs, h) = spreadArrays_st [as] h in sort_in_place (compare_of ord) xs h)"

definition reverse_st :: "nat \<Rightarrow> 'a store \<Rightarrow> nat \<times> 'a store" where
  "reverse_st as h =
     (let (xs, h) = spreadArrays_st [as] h in reverse_in_place xs h)"

definition unsafeInsertAt_st :: "int \<Rightarrow> 'a \<Rightarrow> nat \<Rightarrow> 'a store \<Rightarrow> nat \<times> 'a store" where
  "unsafeInsertAt_st i a as h =
     (let (xs, h) = spreadArrays_st [as] h;
          h = splice_in_place xs i 0 [a] h
      in (xs, h))"

definition insertAt_st :: "int \<Rightarrow> 'a \<Rightarrow> nat \<Rightarrow> 'a store \<Rightarrow> nat option \<times> 'a store" where
  "insertAt_st i a as h =
     (if i < 0 \<or> i > int (length_of h as) then (None, h)
      else let (xs, h) = unsafeInsertAt_st i a as h in (Some xs, h))"

text \<open>
  \<^verbatim>\<open>as[i] === a\<close> compares primitive values by value and objects by reference; the
  model compares by value. Where the two differ the code copies an array that the model
  hands back as it is; neither writes to \<open>as\<close>.
\<close>

definition unsafeUpdateAt_st :: "int \<Rightarrow> 'a \<Rightarrow> nat \<Rightarrow> 'a store \<Rightarrow> nat \<times> 'a store" where
  "unsafeUpdateAt_st i a as h =
     (if read_at h as (nat i) = a then (as, h)
      else
        let (xs, h) = spreadArrays_st [as] h;
            h = write_at xs (nat i) a h
        in (xs, h))"

definition updateAt_st :: "int \<Rightarrow> 'a \<Rightarrow> nat \<Rightarrow> 'a store \<Rightarrow> nat option \<times> 'a store" where
  "updateAt_st i a as h =
     (if isOutOfBound i (h ! as) then (None, h)
      else let (xs, h) = unsafeUpdateAt_st i a as h in (Some xs, h))"

definition unsafeDeleteAt_st :: "int \<Rightarrow> nat \<Rightarrow> 'a store \<Rightarrow> nat \<times> 'a store" where
  "unsafeDeleteAt_st i as h =
     (let (xs, h) = spreadArrays_st [as] h;
          h = splice_in_place xs i 1 [] h
      in (xs, h))"

definition deleteAt_st :: "int \<Rightarrow> nat \<Rightarrow> 'a store \<Rightarrow> nat option \<times> 'a store" where
  "deleteAt_st i as h =
     (if isOutOfBound i (h ! as) then (None, h)
      else let (xs, h) = unsafeDeleteAt_st i as h in (Some xs, h))"

definition cons_st :: "'a \<Rightarrow> nat \<Rightarrow> 'a store \<Rightarrow> nat \<times> 'a store" where
  "cons_st head tail h =
     (let len = length_of h tail;
          (r, h) = new_Array (len + 1) h;
          h = for_loop 0 len (\<lambda>i h. write_at r (i + 1) (read_at h tail i) h) h;
          h = write_at r 0 head h
      in (r, h))"

definition snoc_st :: "nat \<Rightarrow> 'a \<Rightarrow> 'a store \<Rightarrow> nat \<times> 'a store" where
  "snoc_st init end h =
     (let len = length_of h init;
          (r, h) = new_Array (len + 1) h;
          h = for_loop 0 len (\<lambda>i h. write_at r i (read_at h init i) h) h;
          h = write_at r len end h
      in (r, h))"

section \<open>Host language: promises\<close>

text \<open>
  Time is counted in turns of the host's event loop: a turn runs one job of the program
  (a script, or a timer callback) and then every promise reaction that has become due.
  A promise is described by how it ends: it is fulfilled with a value or rejected with a
  reason in some turn, or it stays pending for ever. The order in which promises settle
  within one turn is not recorded: where a result depends on it, the order is a
  parameter of the call (\<open>first\<close> below), and what is proved holds for both its values.

  A value is either plain or a promise (a thenable). The host never stores a promise as
  the value of a promise: resolving with one adopts its outcome. So the value of a
  fulfilled promise is always plain.

  A caller-supplied function may throw: it returns \<open>Inl e\<close> when it throws \<open>e\<close> and
  \<open>Inr v\<close> when it returns \<open>v\<close>.
\<close>

datatype 'a promise = Never_settles | Fulfils nat 'a | Rejects nat string

datatype 'a jsval = Plain 'a | Thenable "'a promise"


text \<open>
  \<open>later t p\<close> is what a reaction subscribed in turn \<open>t\<close> sees of \<open>p\<close>: the outcome of
  \<open>p\<close>, in the turn \<open>p\<close> settles or, when \<open>p\<close> had settled before, in turn \<open>t\<close>.
\<close>

definition later :: "nat \<Rightarrow> 'a promise \<Rightarrow> 'a promise" where
  "later t p =
     (case p of
        Never_settles \<Rightarrow> Never_settles
      | Fulfils t1 a \<Rightarrow> Fulfils (max t t1) a
      | Rejects t1 e \<Rightarrow> Rejects (max t t1) e)"

text \<open>
  The resolve function of a promise, called in turn \<open>c\<close>: a plain value fulfils the
  promise; a promise is adopted, and its outcome reaches the resolved promise in the turn
  it settles, or in turn \<open>c\<close> when it had settled before.
\<close>

definition resolve_with :: "nat \<Rightarrow> 'a jsval \<Rightarrow> 'a promise" where
  "resolve_with c v = (case v of Plain a \<Rightarrow> Fulfils c a | Thenable p \<Rightarrow> later c p)"

text \<open>
  \<^verbatim>\<open>Promise.resolve(v)\<close>, called in turn \<open>t\<close>: a new promise fulfilled with a plain
  \<open>v\<close>; a promise \<open>v\<close> is returned as it is.
\<close>

definition Promise_resolve :: "nat \<Rightarrow> 'a jsval \<Rightarrow> 'a promise" where
  "Promise_resolve t v = (case v of Plain a \<Rightarrow> Fulfils t a | Thenable p \<Rightarrow> p)"

text \<open>
  \<^verbatim>\<open>p.then(f)\<close>, called in turn \<open>t\<close>. The callback runs in the turn \<open>c\<close> in which \<open>p\<close>
  is fulfilled (in turn \<open>t\<close> if that was before); the new promise is rejected if the
  callback throws and resolved with its result otherwise. A rejected or pending \<open>p\<close>
  passes on. The callback is given the turn it runs in.
\<close>

definition Promise_then ::
  "nat \<Rightarrow> 'a promise \<Rightarrow> (nat \<Rightarrow> 'a \<Rightarrow> string + 'b jsval) \<Rightarrow> 'b promise" where
  "Promise_then t p f =
     (case later t p of
        Never_settles \<Rightarrow> Never_settles
      | Rejects c e \<Rightarrow> Rejects c e
      | Fulfils c a \<Rightarrow> (case f c a of Inl e \<Rightarrow> Rejects c e | Inr v \<Rightarrow> resolve_with c v))"

text \<open>
  Two promises \<open>p\<close> and \<open>q\<close>, settling in turns \<open>t1\<close> and \<open>t2\<close>, are subscribed to in
  this order in turn \<open>t\<close>. The reaction to \<open>p\<close> runs first if \<open>p\<close> had settled before
  turn \<open>t\<close> (its reaction is queued at once, and first), or if it becomes due in an
  earlier turn than the reaction to \<open>q\<close>; if both become due in the same turn, the order
  within that turn decides (\<open>first\<close>: the reaction to \<open>p\<close> runs first).
\<close>

definition reacts_first :: "bool \<Rightarrow> nat \<Rightarrow> nat \<Rightarrow> nat \<Rightarrow> bool" where
  "reacts_first first t t1 t2 =
     (t1 < t \<or> max t t1 < max t t2 \<or> (max t t1 = max t t2 \<and> first))"


text \<open>
  \<^verbatim>\<open>Promise.all([p, q])\<close>, called in turn \<open>t\<close>: fulfilled with both values once both
  are fulfilled; rejected by the first reaction to a rejection.
\<close>

definition Promise_all2 ::
  "bool \<Rightarrow> nat \<Rightarrow> 'a promise \<Rightarrow> 'b promise \<Rightarrow> ('a \<times> 'b) promise" where
  "Promise_all2 first t p q =
     (case (p, q) of
        (Rejects t1 e1, Rejects t2 e2) \<Rightarrow>
          if reacts_first first t t1 t2 then Rejects (max t t1) e1 else Rejects (max t t2) e2
      | (Rejects t1 e1, _) \<Rightarrow> Rejects (max t t1) e1
      | (_, Rejects t2 e2) \<Rightarrow> Rejects (max t t2) e2
      | (Fulfils t1 a, Fulfils t2 b) \<Rightarrow> Fulfils (max t (max t1 t2)) (a, b)
      | _ \<Rightarrow> Never_settles)"

section \<open>Task\<close>

text \<open>
  A task is a function of no arguments that returns a promise. In the model it takes the
  turn in which it is invoked; \<open>Inl e\<close> is an invocation that throws \<open>e\<close> instead of
  returning a promise. An \<open>IO\<close> is a function of no arguments that returns a value.
\<close>

type_synonym 'a Task = "nat \<Rightarrow> string + 'a promise"

type_synonym 'a IO = "nat \<Rightarrow> string + 'a jsval"

definition never :: "'a Task" where
  "never = (\<lambda>t. Inr Never_settles)"

definition of_task :: "'a jsval \<Rightarrow> 'a Task" where
  "of_task a = (\<lambda>t. Inr (Promise_resolve t a))"



text \<open>
  \<open>delay\<close>: the new promise is resolved by a timer callback. The host runs the callback
  in a later turn, never in the turn of the call; how many further turns pass depends
  on the host's clock and on the delay asked for, and is the parameter \<open>turns\<close>. The
  callback invokes \<open>ma\<close> and passes the value of its promise on. If that invocation
  throws, or its promise is rejected, nothing resolves the new promise.
\<close>

definition delay :: "(nat \<Rightarrow> int \<Rightarrow> nat) \<Rightarrow> int \<Rightarrow> 'a Task \<Rightarrow> 'a Task" where
  "delay turns millis ma = (\<lambda>t.
     Inr (let c = Suc (t + turns t millis) in
          case ma c of
            Inl e \<Rightarrow> Never_settles
          | Inr p \<Rightarrow> (case later c p of Fulfils c' a \<Rightarrow> Fulfils c' a | _ \<Rightarrow> Never_settles)))"

definition fromIO :: "'a IO \<Rightarrow> 'a Task" where
  "fromIO ma = (\<lambda>t. case ma t of Inl e \<Rightarrow> Inl e | Inr a \<Rightarrow> Inr (Promise_resolve t a))"

text \<open>
  \<open>ap\<close>: the array \<^verbatim>\<open>[fab(), fa()]\<close> invokes \<open>fab\<close>, then \<open>fa\<close>. The parameter
  \<open>first\<close> is the host's order of reactions within a turn.
\<close>

definition ap :: "bool \<Rightarrow> 'a Task \<Rightarrow> ('a \<Rightarrow> string + 'b jsval) Task \<Rightarrow> 'b Task" where
  "ap first fa fab = (\<lambda>t.
     case fab t of
       Inl e \<Rightarrow> Inl e
     | Inr pf \<Rightarrow>
         (case fa t of
            Inl e \<Rightarrow> Inl e
          | Inr pa \<Rightarrow> Inr (Promise_then t (Promise_all2 first t pf pa) (\<lambda>c (f, a). f a))))"

definition chain_task :: "('a \<Rightarrow> string + 'b Task) \<Rightarrow> 'a Task \<Rightarrow> 'b Task" where
  "chain_task f ma = (\<lambda>t.
     case ma t of
       Inl e \<Rightarrow> Inl e
     | Inr p \<Rightarrow>
         Inr (Promise_then t p (\<lambda>c a.
           case f a of
             Inl e \<Rightarrow> Inl e
           | Inr mb \<Rightarrow> (case mb c of Inl e \<Rightarrow> Inl e | Inr q \<Rightarrow> Inr (Thenable q)))))"

definition map_task :: "('a \<Rightarrow> string + 'b jsval) \<Rightarrow> 'a Task \<Rightarrow> 'b Task" where
  "map_task f fa = (\<lambda>t.
     case fa t of Inl e \<Rightarrow> Inl e | Inr p \<Rightarrow> Inr (Promise_then t p (\<lambda>c a. f a)))"

text \<open>
  What a caller observes of an invocation: it \<open>resolves\<close> when it returns a promise
  that is fulfilled with a value; it \<open>fails\<close> when it throws or returns a promise that
  is rejected. (A promise that stays pending does neither.)
\<close>

definition resolves :: "string + 'a promise \<Rightarrow> bool" where
  "resolves r = (case r of Inr (Fulfils t a) \<Rightarrow> True | _ \<Rightarrow> False)"

definition fails :: "string + 'a promise \<Rightarrow> bool" where
  "fails r = (case r of Inl e \<Rightarrow> True | Inr (Rejects t e) \<Rightarrow> True | _ \<Rightarrow> False)"

section \<open>Loops as folds\<close>

lemma for_loop_fold: "for_loop i l body s = fold body [i..<l] s"
proof (induction i l body s rule: for_loop.induct)
  case (1 i l body s)
  show ?case
  proof (cases "i < l")
    case True
    with 1 show ?thesis
      by (subst for_loop.simps) (simp add: upt_conv_Cons)
  next
    case False
    then show ?thesis
      by (subst for_loop.simps) simp
  qed
qed

lemma drop_update_head: "k < length r \<Longrightarrow> (drop k r)[0 := v] = v # drop (Suc k) r"
proof -
  assume "k < length r"
  then have "drop k r = r ! k # drop (Suc k) r"
    by (simp add: Cons_nth_drop_Suc)
  then show ?thesis by simp
qed

lemma fold_write_upt:
  "off + n \<le> length r \<Longrightarrow>
   fold (\<lambda>i r. r[i + off := g i]) [0..<n] r = take off r @ map g [0..<n] @ drop (off + n) r"
proof (induction n)
  case 0
  then show ?case by simp
next
  case (Suc n)
  then have le: "n + off < length r" by simp
  show ?case using Suc le
    by (simp add: list_update_append add.commute drop_update_head)
qed

lemma fold_write_upt0:
  "n \<le> length r \<Longrightarrow>
   fold (\<lambda>i r. r[i := g i]) [0..<n] r = map g [0..<n] @ drop n r"
  using fold_write_upt [of 0 n r g] by simp

lemma filled_Some: "filled (map Some xs) = xs"
  by (simp add: filled_def comp_def)

lemma map_nth_upt: "map (\<lambda>i. h (xs ! i)) [0..<length xs] = map h xs"
  by (rule nth_equalityI) simp_all

lemma for_loop_Suc: "for_loop 0 (Suc k) body s = body k (for_loop 0 k body s)"
  by (simp add: for_loop_fold)

lemma for_loop_0: "for_loop 0 0 body s = s"
  by (simp add: for_loop_fold)

lemma copy_row:
  assumes "length arr \<le> m"
  shows "for_loop 0 (length arr) (\<lambda>j r. r[j + length pre := Some (arr ! j)])
           (map Some pre @ replicate m None)
         = map Some (pre @ arr) @ replicate (m - length arr) None"
proof -
  have "length pre + length arr \<le> length (map Some pre @ replicate m None)"
    using assms by simp
  from fold_write_upt [OF this, of "\<lambda>j. Some (arr ! j)"]
  show ?thesis
    by (simp add: for_loop_fold map_nth_upt)
qed

lemma copy_rows:
  "length (concat (map rows [0..<k])) \<le> cap \<Longrightarrow>
   for_loop 0 k
     (\<lambda>i (r, start).
        (for_loop 0 (length (rows i)) (\<lambda>j r. r[j + start := Some (rows i ! j)]) r,
         start + length (rows i)))
     (Array cap, 0)
   = (map Some (concat (map rows [0..<k]))
        @ replicate (cap - length (concat (map rows [0..<k]))) None,
      length (concat (map rows [0..<k])))"
proof (induction k)
  case 0
  then show ?case by (simp add: for_loop_0 Array_def)
next
  case (Suc k)
  let ?pre = "concat (map rows [0..<k])"
  from Suc.prems have le: "length ?pre + length (rows k) \<le> cap" by simp
  then have "length ?pre \<le> cap" by simp
  note IH = Suc.IH [OF this]
  have row: "length (rows k) \<le> cap - length ?pre" using le by simp
  have "cap - length ?pre - length (rows k) = cap - length (concat (map rows [0..<Suc k]))"
    by simp
  then show ?case
    by (simp only: for_loop_Suc IH prod.case copy_row [OF row]) simp
qed

lemma sum_lengths:
  "for_loop 0 k (\<lambda>i s. s + length (rows i)) 0 = length (concat (map rows [0..<k]))"
  by (induction k) (simp_all add: for_loop_Suc for_loop_0)

lemma map_nth_upt': "map (\<lambda>i. xs ! i) [0..<length xs] = xs"
  using map_nth_upt [of id xs] by simp

section \<open>What the array loops compute\<close>

lemma concat_arr_append: "concat_arr x y = x @ y"
proof (cases "x = [] \<or> y = []")
  case True
  then show ?thesis by (auto simp: concat_arr_def Let_def)
next
  case False
  have 1: "fold (\<lambda>i r. r[i := Some (x ! i)]) [0..<length x] (Array (length x + length y))
           = map Some x @ replicate (length y) None"
    by (simp add: fold_write_upt0 Array_def map_nth_upt)
  have 2: "fold (\<lambda>i r. r[i + length x := Some (y ! i)]) [0..<length y]
             (map Some x @ replicate (length y) None) = map Some x @ map Some y"
    by (simp add: fold_write_upt map_nth_upt)
  from False show ?thesis
    by (simp add: concat_arr_def Let_def for_loop_fold 1 2 filled_Some flip: map_append)
qed

lemma flatten_concat: "flatten mma = concat mma"
proof -
  have "length (concat (map (\<lambda>i. mma ! i) [0..<length mma])) \<le> length (concat mma)"
    by (simp add: map_nth_upt')
  from copy_rows [OF this] show ?thesis
    by (simp add: flatten_def Let_def sum_lengths filled_Some map_nth_upt')
qed

lemma collect_rows:
  "k \<le> length ma \<Longrightarrow>
   for_loop 0 k (\<lambda>i (outLen, temp). (outLen + length (f (ma ! i)), temp[i := Some (f (ma ! i))]))
     (0, Array (length ma))
   = (length (concat (map f (take k ma))),
      map (\<lambda>e. Some (f e)) (take k ma) @ replicate (length ma - k) None)"
proof (induction k)
  case 0
  then show ?case by (simp add: for_loop_0 Array_def)
next
  case (Suc k)
  then have k: "k < length ma" by simp
  then have IH: "for_loop 0 k (\<lambda>i (outLen, temp). (outLen + length (f (ma ! i)), temp[i := Some (f (ma ! i))]))
     (0, Array (length ma))
   = (length (concat (map f (take k ma))),
      map (\<lambda>e. Some (f e)) (take k ma) @ replicate (length ma - k) None)"
    using Suc.IH by simp
  have r: "replicate (length ma - k) None = (None :: 'b list option) # replicate (length ma - Suc k) None"
    using k by (cases "length ma - k") (simp_all add: Suc_diff_Suc)
  show ?case
    using k
    by (simp add: for_loop_Suc IH take_Suc_conv_app_nth list_update_append r)
qed

lemma chain_arr_concat: "chain_arr f ma = concat (map f ma)"
proof -
  have rows: "map (\<lambda>i. f (ma ! i)) [0..<length ma] = map f ma"
    by (rule map_nth_upt)
  have body: "for_loop 0 (length ma)
      (\<lambda>i (out, start).
         (for_loop 0 (length (slot (map (\<lambda>e. Some (f e)) ma) i))
            (\<lambda>j out. out[j + start := Some (slot (map (\<lambda>e. Some (f e)) ma) i ! j)]) out,
          start + length (slot (map (\<lambda>e. Some (f e)) ma) i)))
      s
    = for_loop 0 (length ma)
      (\<lambda>i (out, start).
         (for_loop 0 (length (f (ma ! i))) (\<lambda>j out. out[j + start := Some (f (ma ! i) ! j)]) out,
          start + length (f (ma ! i))))
      s" for s
    unfolding for_loop_fold
    by (rule fold_cong) (auto simp: slot_def)
  have "length (concat (map (\<lambda>i. f (ma ! i)) [0..<length ma])) \<le> length (concat (map f ma))"
    by (simp add: rows)
  from copy_rows [OF this] show ?thesis
    by (simp add: chain_arr_def Let_def collect_rows body filled_Some rows)
qed

lemma spread_row:
  "for_loop 0 n (\<lambda>j (r, k). (r[k := Some (a ! j)], Suc k))
   = (\<lambda>(r, k). (for_loop 0 n (\<lambda>j r. r[j + k := Some (a ! j)]) r, k + n))"
proof (rule ext)
  fix p :: "'a option list \<times> nat"
  obtain r k where p: "p = (r, k)" by (cases p)
  have "for_loop 0 n (\<lambda>j (r, k). (r[k := Some (a ! j)], Suc k)) (r, k)
          = (for_loop 0 n (\<lambda>j r. r[j + k := Some (a ! j)]) r, k + n)"
    by (induction n) (simp_all add: for_loop_Suc for_loop_0 add.commute)
  then show "for_loop 0 n (\<lambda>j (r, k). (r[k := Some (a ! j)], Suc k)) p
          = (case p of (r, k) \<Rightarrow> (for_loop 0 n (\<lambda>j r. r[j + k := Some (a ! j)]) r, k + n))"
    by (simp add: p)
qed

lemma spreadArrays_concat: "spreadArrays arguments = concat arguments"
proof -
  have "length (concat (map (\<lambda>i. arguments ! i) [0..<length arguments]))
          \<le> length (concat arguments)"
    by (simp add: map_nth_upt')
  from copy_rows [OF this] show ?thesis
    by (simp add: spreadArrays_def Let_def sum_lengths spread_row filled_Some map_nth_upt'
        add.commute)
qed

lemma Array_Suc: "Array (Suc n) = replicate n None @ [None]"
  by (simp add: Array_def replicate_append_same)

lemma snoc_append: "snoc init end = init @ [end]"
proof -
  have "length init \<le> length (replicate (length init) None @ [None :: 'a option])"
    by simp
  from fold_write_upt0 [OF this, of "\<lambda>i. Some (init ! i)"] show ?thesis
    by (simp add: snoc_def Let_def for_loop_fold Array_Suc map_nth_upt list_update_append
        filled_def del: replicate_Suc)
qed

lemma cons_Cons: "cons head tail = head # tail"
proof -
  have "1 + length tail \<le> length (None # replicate (length tail) (None :: 'a option))"
    by simp
  from fold_write_upt [OF this, of "\<lambda>i. Some (tail ! i)"] show ?thesis
    by (simp add: cons_def Let_def for_loop_fold Array_def map_nth_upt filled_def comp_def)
qed

lemma scan_loop:
  "k \<le> length as \<Longrightarrow>
   for_loop 0 k (\<lambda>i r. r[i + 1 := Some (f (slot r i) (as ! i))])
     ((Array (length as + 1))[0 := Some b])
   = map (\<lambda>j. Some (foldl f b (take j as))) [0..<Suc k] @ replicate (length as - k) None"
proof (induction k)
  case 0
  show ?case by (simp add: for_loop_0 Array_def)
next
  case (Suc k)
  then have k: "k < length as" by simp
  let ?R = "map (\<lambda>j. Some (foldl f b (take j as))) [0..<Suc k]"
  have IH: "for_loop 0 k (\<lambda>i r. r[i + 1 := Some (f (slot r i) (as ! i))])
     ((Array (length as + 1))[0 := Some b]) = ?R @ replicate (length as - k) None"
    using Suc.IH k by simp
  have rd: "slot (?R @ replicate (length as - k) None) k = foldl f b (take k as)"
    by (simp add: slot_def nth_append del: upt_Suc)
  have r: "replicate (length as - k) None = (None :: 'b option) # replicate (length as - Suc k) None"
    using k by (cases "length as - k") (simp_all add: Suc_diff_Suc)
  have wr: "(?R @ replicate (length as - k) None)[k + 1 := v]
              = ?R @ [v] @ replicate (length as - Suc k) None" for v
    by (simp add: list_update_append r del: upt_Suc)
  have nxt: "f (foldl f b (take k as)) (as ! k) = foldl f b (take (Suc k) as)"
    using k by (simp add: take_Suc_conv_app_nth)
  show ?case
    by (simp only: for_loop_Suc IH rd wr nxt) simp
qed

lemma scanLeft_foldl:
  "scanLeft b f as = map (\<lambda>j. foldl f b (take j as)) [0..<Suc (length as)]"
  using scan_loop [of "length as" as f b]
  by (simp add: scanLeft_def Let_def filled_def comp_def del: upt_Suc)

lemma reduce_loop:
  "k \<le> length fa \<Longrightarrow> for_loop 0 k (\<lambda>i r. f r (fa ! i)) b = foldl f b (take k fa)"
  by (induction k) (simp_all add: for_loop_0 for_loop_Suc take_Suc_conv_app_nth)

lemma reduce_foldl: "reduce b f fa = foldl f b fa"
  by (simp add: reduce_def reduceWithIndex_def reduce_loop)

section \<open>Algebraic laws\<close>

text \<open>
  C6. The array monoid satisfies the monoid laws: \<open>concat\<close> is associative, and
  \<open>empty\<close> is a left and a right identity of \<open>concat\<close>.
\<close>

theorem getMonoid_laws:
  "concat_of getMonoid (concat_of getMonoid xs ys) zs
     = concat_of getMonoid xs (concat_of getMonoid ys zs)
   \<and> concat_of getMonoid xs (empty_of getMonoid) = xs
   \<and> concat_of getMonoid (empty_of getMonoid) xs = xs"
  by (simp add: getMonoid_def concat_arr_append empty_arr_def)

lemma concat_map_of_arr: "concat (map of_arr ma) = ma"
  by (induction ma) (simp_all add: of_arr_def)

text \<open>
  C7. The array monad satisfies left identity, \<open>chain f (of a) = f a\<close>, and right
  identity, \<open>chain of ma = ma\<close>.
\<close>

theorem chain_arr_identities:
  "chain_arr f (of_arr a) = f a \<and> chain_arr of_arr ma = ma"
  by (simp add: chain_arr_concat concat_map_of_arr) (simp add: of_arr_def)

text \<open>
  C8. The array functor satisfies identity, \<open>map identity fa = fa\<close>, and composition,
  \<open>map (g after f) fa = map g (map f fa)\<close>.
\<close>

theorem map_arr_functor_laws:
  "map_arr identity fa = fa \<and> map_arr (\<lambda>a. g (f a)) fa = map_arr g (map_arr f fa)"
  by (simp add: map_arr_def identity_def)

section \<open>Scans\<close>

text \<open>
  C10. \<open>scanLeft b f as\<close> has one element more than \<open>as\<close>; it starts with \<open>b\<close>;
  each later element is \<open>f\<close> of the element before it and the element of \<open>as\<close> at
  that place; and its last element is \<open>reduce b f as\<close>.
\<close>

theorem scanLeft_steps:
  "length (scanLeft b f as) = length as + 1
   \<and> scanLeft b f as ! 0 = b
   \<and> (\<forall>i < length as. scanLeft b f as ! (i + 1) = f (scanLeft b f as ! i) (as ! i))
   \<and> last (scanLeft b f as) = reduce b f as"
proof -
  have len: "length (scanLeft b f as) = length as + 1"
    by (simp add: scanLeft_foldl del: upt_Suc)
  have nth: "scanLeft b f as ! j = foldl f b (take j as)" if "j \<le> length as" for j
    using that by (simp add: scanLeft_foldl nth_append del: upt_Suc)
  have step: "scanLeft b f as ! (i + 1) = f (scanLeft b f as ! i) (as ! i)"
    if "i < length as" for i
    using that by (simp add: nth take_Suc_conv_app_nth)
  have "last (scanLeft b f as) = scanLeft b f as ! length as"
    using len by (simp add: last_conv_nth flip: length_greater_0_conv)
  then have "last (scanLeft b f as) = reduce b f as"
    by (simp add: nth reduce_foldl)
  with len nth [of 0] step show ?thesis by simp
qed

theorem scanLeft_steps_witness:
  "length (scanLeft (10::int) (\<lambda>b a. b - a) [1, 2, 3]) = 4
   \<and> scanLeft (10::int) (\<lambda>b a. b - a) [1, 2, 3] ! 0 = 10
   \<and> scanLeft (10::int) (\<lambda>b a. b - a) [1, 2, 3] ! 3
       = scanLeft (10::int) (\<lambda>b a. b - a) [1, 2, 3] ! 2 - 3
   \<and> last (scanLeft (10::int) (\<lambda>b a. b - a) [1, 2, 3]) = 4
   \<and> reduce (10::int) (\<lambda>b a. b - a) [1, 2, 3] = 4"
proof -
  note s = scanLeft_steps [of "10::int" "\<lambda>b a. b - a" "[1, 2, 3]"]
  have r: "reduce (10::int) (\<lambda>b a. b - a) [1, 2, 3] = 4"
    by code_simp
  have "scanLeft (10::int) (\<lambda>b a. b - a) [1, 2, 3] ! (2 + 1)
          = scanLeft (10::int) (\<lambda>b a. b - a) [1, 2, 3] ! 2 - [1, 2, 3] ! 2"
    using s [THEN conjunct2, THEN conjunct2, THEN conjunct1, rule_format, of 2] by simp
  then have "scanLeft (10::int) (\<lambda>b a. b - a) [1, 2, 3] ! 3
          = scanLeft (10::int) (\<lambda>b a. b - a) [1, 2, 3] ! 2 - 3"
    by simp
  with s r show ?thesis by simp
qed


section \<open>Indexed access\<close>

lemma js_splice_insert:
  "0 \<le> i \<Longrightarrow> i \<le> int (length xs) \<Longrightarrow>
   js_splice i 0 items xs = take (nat i) xs @ items @ drop (nat i) xs"
  by (simp add: js_splice_def Let_def min_def)

text \<open>
  C2. For every array and every integer index, \<open>lookup\<close> and \<open>updateAt\<close> return
  \<open>None\<close> exactly when the index is below 0 or not below the length, \<open>insertAt\<close>
  exactly when it is below 0 or above the length; otherwise they return \<open>Some\<close> of the
  element at the index, of the array with that element replaced, and of the array with
  the new element put in at the index. (The functions are total: none of them throws.)
\<close>

theorem index_ops_optional:
  "lookup i as
     = (if 0 \<le> i \<and> i < int (length as) then Some (as ! nat i) else None)
   \<and> updateAt i a as
     = (if 0 \<le> i \<and> i < int (length as) then Some (as[nat i := a]) else None)
   \<and> insertAt i a as
     = (if 0 \<le> i \<and> i \<le> int (length as)
        then Some (take (nat i) as @ [a] @ drop (nat i) as) else None)"
proof -
  have upd: "unsafeUpdateAt i a as = as[nat i := a]"
    by (cases "as ! nat i = a") (auto simp: unsafeUpdateAt_def Let_def spreadArrays_concat)
  show ?thesis
    by (auto simp: lookup_def updateAt_def insertAt_def isOutOfBound_def upd
        unsafeInsertAt_def Let_def spreadArrays_concat js_splice_insert)
qed

section \<open>Chunks\<close>

lemma splitAt_take_drop:
  "0 \<le> n \<Longrightarrow> splitAt n as = (take (nat n) as, drop (nat n) as)"
  by (auto simp: splitAt_def js_slice_def js_slice_from_def Let_def min_def)

lemma chop_splitAt:
  assumes n: "1 \<le> n"
  shows "\<exists>R. chop_loop (splitAt n) result cs = Some (result @ R)
            \<and> concat R = cs \<and> [] \<notin> set R
            \<and> (\<forall>k. k + 1 < length R \<longrightarrow> length (R ! k) = nat n)"
proof (induction "length cs" arbitrary: cs result rule: less_induct)
  case less
  show ?case
  proof (cases "cs = []")
    case True
    then show ?thesis
      by (subst chop_loop.simps) (simp add: isNonEmpty_def)
  next
    case False
    let ?b = "take (nat n) cs" and ?c = "drop (nat n) cs"
    have "length ?c < length cs" using n False by simp
    from less [OF this, of "result @ [?b]"]
    obtain R where R: "chop_loop (splitAt n) (result @ [?b]) ?c = Some ((result @ [?b]) @ R)"
      "concat R = ?c" "[] \<notin> set R" "\<forall>k. k + 1 < length R \<longrightarrow> length (R ! k) = nat n"
      by blast
    have step: "chop_loop (splitAt n) result cs = Some (result @ (?b # R))"
      using False n R(1)
      by (subst chop_loop.simps) (simp add: isNonEmpty_def splitAt_take_drop)
    have b: "?b \<noteq> []" using n False by simp
    have full: "length ?b = nat n" if "R \<noteq> []"
    proof -
      from that R(2,3) have "?c \<noteq> []" by (cases R) auto
      then show ?thesis by simp
    qed
    have lens: "\<forall>k. k + 1 < length (?b # R) \<longrightarrow> length ((?b # R) ! k) = nat n"
    proof (intro allI impI)
      fix k assume k: "k + 1 < length (?b # R)"
      show "length ((?b # R) ! k) = nat n"
      proof (cases k)
        case 0
        with k have "R \<noteq> []" by auto
        with 0 full show ?thesis by simp
      next
        case (Suc j)
        with k R(4) show ?thesis by simp
      qed
    qed
    from step R(2,3) b lens show ?thesis
      by (intro exI [of _ "?b # R"]) simp
  qed
qed

text \<open>
  C9. For \<open>n \<ge> 1\<close>, \<open>chunksOf n as\<close> returns; flattening its chunks gives \<open>as\<close>
  back; no chunk is empty; and every chunk but the last has exactly \<open>n\<close> elements.
\<close>

theorem chunksOf_flatten:
  assumes "1 \<le> n"
  shows "\<exists>cs. chunksOf n as = Some cs \<and> flatten cs = as \<and> [] \<notin> set cs
           \<and> (\<forall>k. k + 1 < length cs \<longrightarrow> length (cs ! k) = nat n)"
proof (cases "as = []")
  case True
  then show ?thesis by (simp add: chunksOf_def empty_arr_def flatten_concat)
next
  case False
  show ?thesis
  proof (cases "isOutOfBound (n - 1) as")
    case True
    with False show ?thesis by (simp add: chunksOf_def flatten_concat)
  next
    case oob: False
    from chop_splitAt [OF assms, of "[]" as] False oob show ?thesis
      by (simp add: chunksOf_def chop_def flatten_concat)
  qed
qed

theorem chunksOf_flatten_witness:
  "chunksOf 2 [1, 2, 3, 4, 5 :: nat] = Some [[1, 2], [3, 4], [5]]
   \<and> flatten [[1, 2], [3, 4], [5 :: nat]] = [1, 2, 3, 4, 5]
   \<and> [] \<notin> set [[1, 2], [3, 4], [5 :: nat]]
   \<and> length ([[1, 2], [3, 4], [5 :: nat]] ! 0) = 2
   \<and> length ([[1, 2], [3, 4], [5 :: nat]] ! 1) = 2"
proof -
  have v: "chunksOf 2 [1, 2, 3, 4, 5 :: nat] = Some [[1, 2], [3, 4], [5]]"
    by code_simp
  from chunksOf_flatten [of 2 "[1, 2, 3, 4, 5 :: nat]"]
  obtain cs where cs: "chunksOf 2 [1, 2, 3, 4, 5 :: nat] = Some cs" "flatten cs = [1, 2, 3, 4, 5]"
    "[] \<notin> set cs" "\<forall>k. k + 1 < length cs \<longrightarrow> length (cs ! k) = nat 2"
    by auto
  from cs(1) v have eq: "cs = [[1, 2], [3, 4], [5]]" by simp
  from cs(4) [rule_format, of 0] cs(4) [rule_format, of 1] cs(2,3) v show ?thesis
    unfolding eq by simp
qed

section \<open>Termination of the caller-driven loops\<close>









section \<open>Arrays are not mutated\<close>

lemma write_at_last:
  "write_at (length h) i v (h @ [row]) = h @ [row[i := Some v]]"
  by (simp add: write_at_def)

lemma replicate_hole:
  "n < s \<Longrightarrow> replicate (s - n) None = (None :: 'a option) # replicate (s - Suc n) None"
  by (cases "s - n") (simp_all add: Suc_diff_Suc)

lemma fill_next:
  assumes "n < length xs"
  shows "(map Some (take n xs) @ replicate (length xs - n) None)[n := Some (xs ! n)]
         = map Some (take (Suc n) xs) @ replicate (length xs - Suc n) None"
  using assms
  by (simp add: list_update_append replicate_hole [OF assms] take_Suc_conv_app_nth)

lemma spread_copy_loop:
  assumes as: "as < length h"
  shows "n \<le> length (h ! as) \<Longrightarrow>
     for_loop 0 n (\<lambda>j (h', k). (write_at (length h) k (read_at h' as j) h', k + 1))
       (h @ [Array (length (h ! as))], 0)
     = (h @ [map Some (take n (filled (h ! as)))
               @ replicate (length (h ! as) - n) None], n)"
proof (induction n)
  case 0
  show ?case by (simp add: for_loop_0 Array_def)
next
  case (Suc n)
  then have n: "n < length (h ! as)" by simp
  let ?xs = "filled (h ! as)"
  have len: "length ?xs = length (h ! as)" by (simp add: filled_def)
  have rd: "read_at (h @ [row]) as n = ?xs ! n" for row
    using as n by (simp add: read_at_def slot_def filled_def nth_append)
  have IH: "for_loop 0 n (\<lambda>j (h', k). (write_at (length h) k (read_at h' as j) h', k + 1))
       (h @ [Array (length (h ! as))], 0)
     = (h @ [map Some (take n ?xs) @ replicate (length (h ! as) - n) None], n)"
    using Suc by simp
  from fill_next [of n ?xs] n len
  have fill: "(map Some (take n ?xs) @ replicate (length (h ! as) - n) None)[n := Some (?xs ! n)]
         = map Some (take (Suc n) ?xs) @ replicate (length (h ! as) - Suc n) None"
    by simp
  show ?case
    by (simp only: for_loop_Suc IH prod.case write_at_last rd fill) simp
qed

lemma spreadArrays_st_single:
  assumes "as < length h"
  shows "spreadArrays_st [as] h = (length h, h @ [map Some (filled (h ! as))])"
proof -
  have s: "for_loop 0 (Suc 0) (\<lambda>i s. s + length_of h ([as] ! i)) 0 = length (h ! as)"
    by (simp add: for_loop_Suc for_loop_0 length_of_def)
  have lo: "length_of (h @ [row]) as = length (h ! as)" for row
    using assms by (simp add: length_of_def nth_append)
  have len: "length (filled (h ! as)) = length (h ! as)" by (simp add: filled_def)
  from spread_copy_loop [OF assms, of "length (h ! as)"] len show ?thesis
    by (simp add: spreadArrays_st_def Let_def s new_Array_def for_loop_Suc for_loop_0 lo)
      (simp add: length_of_def)
qed

lemma take_old: "take (length h) (h @ rows) = h"
  by simp

lemma cons_copy_loop:
  assumes "tail < length h"
  shows "n \<le> length (h ! tail) \<Longrightarrow>
     for_loop 0 n (\<lambda>i h'. write_at (length h) (i + 1) (read_at h' tail i) h')
       (h @ [Array (length (h ! tail) + 1)])
     = h @ [None # map Some (take n (filled (h ! tail)))
               @ replicate (length (h ! tail) - n) None]"
proof (induction n)
  case 0
  show ?case by (simp add: for_loop_0 Array_def)
next
  case (Suc n)
  then have n: "n < length (h ! tail)" by simp
  let ?xs = "filled (h ! tail)"
  have len: "length ?xs = length (h ! tail)" by (simp add: filled_def)
  have rd: "read_at (h @ [row]) tail n = ?xs ! n" for row
    using assms n by (simp add: read_at_def slot_def filled_def nth_append)
  have IH: "for_loop 0 n (\<lambda>i h'. write_at (length h) (i + 1) (read_at h' tail i) h')
       (h @ [Array (length (h ! tail) + 1)])
     = h @ [None # map Some (take n ?xs) @ replicate (length (h ! tail) - n) None]"
    using Suc by simp
  from fill_next [of n ?xs] n len
  have fill: "(None # map Some (take n ?xs) @ replicate (length (h ! tail) - n) None)
                [n + 1 := Some (?xs ! n)]
         = None # map Some (take (Suc n) ?xs) @ replicate (length (h ! tail) - Suc n) None"
    by simp
  show ?case
    by (simp only: for_loop_Suc IH write_at_last rd fill)
qed

lemma cons_st_new:
  assumes "tail < length h"
  shows "cons_st head tail h = (length h, h @ [map Some (head # filled (h ! tail))])"
proof -
  have len: "length (filled (h ! tail)) = length (h ! tail)" by (simp add: filled_def)
  from cons_copy_loop [OF assms, of "length (h ! tail)"] len show ?thesis
    by (simp add: cons_st_def Let_def new_Array_def length_of_def write_at_last)
qed

lemma snoc_copy_loop:
  assumes "init < length h"
  shows "n \<le> length (h ! init) \<Longrightarrow>
     for_loop 0 n (\<lambda>i h'. write_at (length h) i (read_at h' init i) h')
       (h @ [Array (length (h ! init) + 1)])
     = h @ [(map Some (take n (filled (h ! init)))
               @ replicate (length (h ! init) - n) None) @ [None]]"
proof (induction n)
  case 0
  show ?case by (simp add: for_loop_0 Array_def replicate_append_same)
next
  case (Suc n)
  then have n: "n < length (h ! init)" by simp
  let ?xs = "filled (h ! init)"
  have len: "length ?xs = length (h ! init)" by (simp add: filled_def)
  have rd: "read_at (h @ [row]) init n = ?xs ! n" for row
    using assms n by (simp add: read_at_def slot_def filled_def nth_append)
  have IH: "for_loop 0 n (\<lambda>i h'. write_at (length h) i (read_at h' init i) h')
       (h @ [Array (length (h ! init) + 1)])
     = h @ [(map Some (take n ?xs) @ replicate (length (h ! init) - n) None) @ [None]]"
    using Suc by simp
  from fill_next [of n ?xs] n len
  have fill: "((map Some (take n ?xs) @ replicate (length (h ! init) - n) None) @ [None])
                [n := Some (?xs ! n)]
         = (map Some (take (Suc n) ?xs) @ replicate (length (h ! init) - Suc n) None) @ [None]"
    by (simp add: list_update_append)
  show ?case
    by (simp only: for_loop_Suc IH write_at_last rd fill)
qed

lemma snoc_st_new:
  assumes "init < length h"
  shows "snoc_st init end h = (length h, h @ [map Some (filled (h ! init) @ [end])])"
proof -
  have len: "length (filled (h ! init)) = length (h ! init)" by (simp add: filled_def)
  from snoc_copy_loop [OF assms, of "length (h ! init)"] len show ?thesis
    by (simp add: snoc_st_def Let_def new_Array_def length_of_def write_at_last
        list_update_append)
qed

lemma in_place_new:
  "as < length h \<Longrightarrow>
   take (length h) ((h @ [row])[length h := row']) = h
   \<and> (h @ [row])[length h := row'] ! as = h ! as
   \<and> length h < length ((h @ [row])[length h := row'])"
  by (simp add: nth_append)

lemma js_splice_delete:
  "0 \<le> i \<Longrightarrow> i < int (length xs) \<Longrightarrow>
   js_splice i 1 [] xs = take (nat i) xs @ drop (Suc (nat i)) xs"
  by (simp add: js_splice_def Let_def min_def nat_add_distrib)

lemma store_ops_refine:
  assumes "as < length h"
  shows
    "(case cons_st a as h of (r, h') \<Rightarrow> filled (h' ! r) = cons a (filled (h ! as)))
     \<and> (case snoc_st as a h of (r, h') \<Rightarrow> filled (h' ! r) = snoc (filled (h ! as)) a)
     \<and> (case insertAt_st i a as h of (r, h') \<Rightarrow>
          map_option (\<lambda>r. filled (h' ! r)) r = insertAt i a (filled (h ! as)))
     \<and> (case deleteAt_st i as h of (r, h') \<Rightarrow>
          map_option (\<lambda>r. filled (h' ! r)) r = deleteAt i (filled (h ! as)))
     \<and> (case updateAt_st i a as h of (r, h') \<Rightarrow>
          map_option (\<lambda>r. filled (h' ! r)) r = updateAt i a (filled (h ! as)))"
proof -
  note sp = spreadArrays_st_single [OF assms]
  have len: "length (filled (h ! as)) = length (h ! as)" by (simp add: filled_def)
  have 1: "case cons_st a as h of (r, h') \<Rightarrow> filled (h' ! r) = cons a (filled (h ! as))"
    using assms by (simp add: cons_st_new cons_Cons filled_Some del: list.map)
  have 2: "case snoc_st as a h of (r, h') \<Rightarrow> filled (h' ! r) = snoc (filled (h ! as)) a"
    using assms by (simp add: snoc_st_new snoc_append filled_Some del: map_append)
  have 3: "case insertAt_st i a as h of (r, h') \<Rightarrow>
          map_option (\<lambda>r. filled (h' ! r)) r = insertAt i a (filled (h ! as))"
    by (simp add: insertAt_st_def unsafeInsertAt_st_def sp splice_in_place_def length_of_def
        insertAt_def unsafeInsertAt_def spreadArrays_concat filled_Some len)
  have 4: "case deleteAt_st i as h of (r, h') \<Rightarrow>
          map_option (\<lambda>r. filled (h' ! r)) r = deleteAt i (filled (h ! as))"
    by (simp add: deleteAt_st_def unsafeDeleteAt_st_def sp splice_in_place_def
        deleteAt_def unsafeDeleteAt_def spreadArrays_concat filled_Some len isOutOfBound_def)
  have rd: "read_at h as (nat i) = filled (h ! as) ! nat i" if "\<not> isOutOfBound i (h ! as)"
  proof -
    from that have "nat i < length (h ! as)" by (auto simp: isOutOfBound_def)
    then show ?thesis by (simp add: read_at_def slot_def filled_def)
  qed
  have fu: "filled (r[n := Some v]) = (filled r)[n := v]" for r :: "'a option list" and n v
    by (simp add: filled_def map_update)
  have oob: "isOutOfBound i (filled (h ! as)) = isOutOfBound i (h ! as)"
    by (simp add: isOutOfBound_def len)
  have 5: "case updateAt_st i a as h of (r, h') \<Rightarrow>
          map_option (\<lambda>r. filled (h' ! r)) r = updateAt i a (filled (h ! as))"
  proof (cases "isOutOfBound i (h ! as)")
    case True
    then show ?thesis by (simp add: updateAt_st_def updateAt_def oob)
  next
    case False
    then show ?thesis
      using assms
      by (simp add: updateAt_st_def unsafeUpdateAt_st_def sp write_at_def rd
          updateAt_def unsafeUpdateAt_def spreadArrays_concat filled_Some oob fu)
  qed
  from 1 2 3 4 5 show ?thesis by (intro conjI)
qed

text \<open>
  C5. The functions that produce a modified array (\<open>sort\<close>, \<open>reverse\<close>, \<open>cons\<close>,
  \<open>snoc\<close>, \<open>insertAt\<close>, \<open>deleteAt\<close>, \<open>updateAt\<close>) leave their input as it was:
  after the call every array that was in the store, the input \<open>as\<close> among them, holds
  the elements it held before, in the same order; and the result is either a new array
  or \<open>as\<close> itself.
\<close>

theorem modifying_ops_leave_input:
  assumes "as < length h"
  shows
    "(case sort_st ord as h of (r, h') \<Rightarrow>
        take (length h) h' = h \<and> h' ! as = h ! as \<and> (r = as \<or> length h \<le> r) \<and> r < length h')
     \<and> (case reverse_st as h of (r, h') \<Rightarrow>
        take (length h) h' = h \<and> h' ! as = h ! as \<and> (r = as \<or> length h \<le> r) \<and> r < length h')
     \<and> (case cons_st a as h of (r, h') \<Rightarrow>
        take (length h) h' = h \<and> h' ! as = h ! as \<and> (r = as \<or> length h \<le> r) \<and> r < length h')
     \<and> (case snoc_st as a h of (r, h') \<Rightarrow>
        take (length h) h' = h \<and> h' ! as = h ! as \<and> (r = as \<or> length h \<le> r) \<and> r < length h')
     \<and> (case insertAt_st i a as h of
          (None, h') \<Rightarrow> h' = h
        | (Some r, h') \<Rightarrow>
            take (length h) h' = h \<and> h' ! as = h ! as \<and> (r = as \<or> length h \<le> r) \<and> r < length h')
     \<and> (case deleteAt_st i as h of
          (None, h') \<Rightarrow> h' = h
        | (Some r, h') \<Rightarrow>
            take (length h) h' = h \<and> h' ! as = h ! as \<and> (r = as \<or> length h \<le> r) \<and> r < length h')
     \<and> (case updateAt_st i a as h of
          (None, h') \<Rightarrow> h' = h
        | (Some r, h') \<Rightarrow>
            take (length h) h' = h \<and> h' ! as = h ! as \<and> (r = as \<or> length h \<le> r) \<and> r < length h')"
proof -
  note new = in_place_new [OF assms]
  note sp = spreadArrays_st_single [OF assms]
  have 1: "case sort_st ord as h of (r, h') \<Rightarrow>
        take (length h) h' = h \<and> h' ! as = h ! as \<and> (r = as \<or> length h \<le> r) \<and> r < length h'"
    using new by (simp add: sort_st_def sp sort_in_place_def)
  have 2: "case reverse_st as h of (r, h') \<Rightarrow>
        take (length h) h' = h \<and> h' ! as = h ! as \<and> (r = as \<or> length h \<le> r) \<and> r < length h'"
    using new by (simp add: reverse_st_def sp reverse_in_place_def)
  have 3: "case cons_st a as h of (r, h') \<Rightarrow>
        take (length h) h' = h \<and> h' ! as = h ! as \<and> (r = as \<or> length h \<le> r) \<and> r < length h'"
    using assms by (simp add: cons_st_new nth_append)
  have 4: "case snoc_st as a h of (r, h') \<Rightarrow>
        take (length h) h' = h \<and> h' ! as = h ! as \<and> (r = as \<or> length h \<le> r) \<and> r < length h'"
    using assms by (simp add: snoc_st_new nth_append)
  have 5: "case insertAt_st i a as h of
          (None, h') \<Rightarrow> h' = h
        | (Some r, h') \<Rightarrow>
            take (length h) h' = h \<and> h' ! as = h ! as \<and> (r = as \<or> length h \<le> r) \<and> r < length h'"
    using new by (simp add: insertAt_st_def unsafeInsertAt_st_def sp splice_in_place_def)
  have 6: "case deleteAt_st i as h of
          (None, h') \<Rightarrow> h' = h
        | (Some r, h') \<Rightarrow>
            take (length h) h' = h \<and> h' ! as = h ! as \<and> (r = as \<or> length h \<le> r) \<and> r < length h'"
    using new by (simp add: deleteAt_st_def unsafeDeleteAt_st_def sp splice_in_place_def)
  have 7: "case updateAt_st i a as h of
          (None, h') \<Rightarrow> h' = h
        | (Some r, h') \<Rightarrow>
            take (length h) h' = h \<and> h' ! as = h ! as \<and> (r = as \<or> length h \<le> r) \<and> r < length h'"
    using new assms
    by (simp add: updateAt_st_def unsafeUpdateAt_st_def sp write_at_def)
  from 1 2 3 4 5 6 7 show ?thesis by (intro conjI)
qed

theorem modifying_ops_leave_input_witness:
  "sort_st \<lparr>compare_of = (\<lambda>a b. int a - int b)\<rparr> 0 [map Some [3, 1, 2 :: nat]]
     = (1, [[Some 3, Some 1, Some 2], [Some 1, Some 2, Some 3]])
   \<and> take (length [map Some [3, 1, 2 :: nat]])
        (snd (sort_st \<lparr>compare_of = (\<lambda>a b. int a - int b)\<rparr> 0 [map Some [3, 1, 2 :: nat]]))
       = [map Some [3, 1, 2 :: nat]]
   \<and> updateAt_st 1 1 0 [map Some [3, 1, 2 :: nat]] = (Some 0, [[Some 3, Some 1, Some 2]])
   \<and> updateAt_st 1 9 0 [map Some [3, 1, 2 :: nat]]
       = (Some 1, [[Some 3, Some 1, Some 2], [Some 3, Some 9, Some 2]])"
proof -
  have as: "(0 :: nat) < length [map Some [3, 1, 2 :: nat]]" by simp
  note t = modifying_ops_leave_input
    [OF as, where ord = "\<lparr>compare_of = (\<lambda>a b. int a - int b)\<rparr>"]
  from t [THEN conjunct1]
  have "take (length [map Some [3, 1, 2 :: nat]])
        (snd (sort_st \<lparr>compare_of = (\<lambda>a b. int a - int b)\<rparr> 0 [map Some [3, 1, 2 :: nat]]))
       = [map Some [3, 1, 2 :: nat]]"
    by (simp add: case_prod_beta)
  moreover have "sort_st \<lparr>compare_of = (\<lambda>a b. int a - int b)\<rparr> 0 [map Some [3, 1, 2 :: nat]]
     = (1, [[Some 3, Some 1, Some 2], [Some 1, Some 2, Some 3]])"
    by code_simp
  moreover have "updateAt_st 1 1 0 [map Some [3, 1, 2 :: nat]]
       = (Some 0, [[Some 3, Some 1, Some 2]])"
    by code_simp
  moreover have "updateAt_st 1 9 0 [map Some [3, 1, 2 :: nat]]
       = (Some 1, [[Some 3, Some 1, Some 2], [Some 3, Some 9, Some 2]])"
    by code_simp
  ultimately show ?thesis by (intro conjI)
qed

section \<open>Tasks never fail\<close>

lemma resolves_iff: "resolves r \<longleftrightarrow> (\<exists>t a. r = Inr (Fulfils t a))"
  by (auto simp: resolves_def split: sum.splits promise.splits)

lemma not_fails_iff:
  "\<not> fails r \<longleftrightarrow> (\<exists>p. r = Inr p \<and> (\<forall>c e. p \<noteq> Rejects c e))"
  by (auto simp: fails_def split: sum.splits promise.splits)

lemma later_not_rejected:
  "(\<forall>c e. p \<noteq> Rejects c e) \<Longrightarrow> later t p \<noteq> Rejects c' e'"
  by (cases p) (simp_all add: later_def)

lemma then_fulfils:
  "p = Fulfils t1 a \<Longrightarrow> f (max t t1) a = Inr (Plain b) \<Longrightarrow>
   Promise_then t p f = Fulfils (max t t1) b"
  by (simp add: Promise_then_def later_def resolve_with_def)

lemma then_not_rejected:
  assumes p: "\<forall>c e. p \<noteq> Rejects c e"
    and f: "\<And>c a. \<exists>v. f c a = Inr v \<and> (\<forall>q. v = Thenable q \<longrightarrow> (\<forall>c' e. q \<noteq> Rejects c' e))"
  shows "Promise_then t p f \<noteq> Rejects c' e'"
proof (cases p)
  case Never_settles
  then show ?thesis by (simp add: Promise_then_def later_def)
next
  case (Rejects c e)
  with p show ?thesis by simp
next
  case (Fulfils t1 a)
  from f [of "max t t1" a] obtain v where v: "f (max t t1) a = Inr v"
    "\<forall>q. v = Thenable q \<longrightarrow> (\<forall>c' e. q \<noteq> Rejects c' e)"
    by blast
  show ?thesis
  proof (cases v)
    case (Plain b)
    with Fulfils v(1) show ?thesis
      by (simp add: Promise_then_def later_def resolve_with_def)
  next
    case (Thenable q)
    with v(2) have "\<forall>c' e. q \<noteq> Rejects c' e" by blast
    from later_not_rejected [OF this] Fulfils v(1) Thenable show ?thesis
      by (simp add: Promise_then_def later_def resolve_with_def)
  qed
qed

lemma resolves_map:
  assumes "\<forall>u. resolves (fa u)" "\<forall>v. \<exists>b. f v = Inr (Plain b)"
  shows "resolves (map_task f fa t)"
proof -
  from assms(1) obtain t1 a where fa: "fa t = Inr (Fulfils t1 a)"
    unfolding resolves_iff by blast
  from assms(2) obtain b where "f a = Inr (Plain b)" by blast
  with fa show ?thesis
    by (simp add: map_task_def then_fulfils resolves_def)
qed

lemma resolves_chain:
  assumes "\<forall>u. resolves (ma u)" "\<forall>v. \<exists>mb. k v = Inr mb \<and> (\<forall>u. resolves (mb u))"
  shows "resolves (chain_task k ma t)"
proof -
  from assms(1) obtain t1 a where ma: "ma t = Inr (Fulfils t1 a)"
    unfolding resolves_iff by blast
  from assms(2) obtain mb where mb: "k a = Inr mb" "\<forall>u. resolves (mb u)"
    by blast
  from mb(2) obtain t2 b where "mb (max t t1) = Inr (Fulfils t2 b)"
    unfolding resolves_iff by blast
  with ma mb(1) show ?thesis
    by (simp add: chain_task_def Promise_then_def later_def resolve_with_def resolves_def)
qed

lemma resolves_ap:
  assumes "\<forall>u. resolves (fa u)"
    "\<forall>u. \<exists>t1 g. fab u = Inr (Fulfils t1 g) \<and> (\<forall>v. \<exists>b. g v = Inr (Plain b))"
  shows "resolves (ap first fa fab t)"
proof -
  from assms(1) obtain t2 a where fa: "fa t = Inr (Fulfils t2 a)"
    unfolding resolves_iff by blast
  from assms(2) obtain t1 g where g: "fab t = Inr (Fulfils t1 g)" "\<forall>v. \<exists>b. g v = Inr (Plain b)"
    by blast
  from g(2) obtain b where "g a = Inr (Plain b)" by blast
  with fa g(1) show ?thesis
    by (simp add: ap_def Promise_all2_def Promise_then_def later_def resolve_with_def
        resolves_def)
qed

lemma resolves_delay:
  assumes "\<forall>u. resolves (ma u)"
  shows "resolves (delay turns millis ma t)"
proof -
  from assms obtain t1 a where "ma (Suc (t + turns t millis)) = Inr (Fulfils t1 a)"
    unfolding resolves_iff by blast
  then show ?thesis
    by (simp add: delay_def later_def resolves_def)
qed

lemma resolves_fromIO:
  assumes "\<forall>u. \<exists>b. io u = Inr (Plain b)"
  shows "resolves (fromIO io t)"
proof -
  from assms obtain b where "io t = Inr (Plain b)" by blast
  then show ?thesis
    by (simp add: fromIO_def Promise_resolve_def resolves_def)
qed

lemma not_fails_map:
  assumes "\<forall>u. \<not> fails (fa u)" "\<forall>v. \<exists>b. f v = Inr (Plain b)"
  shows "\<not> fails (map_task f fa t)"
proof -
  from assms(1) obtain p where p: "fa t = Inr p" "\<forall>c e. p \<noteq> Rejects c e"
    unfolding not_fails_iff by blast
  have "Promise_then t p (\<lambda>c a. f a) \<noteq> Rejects c' e'" for c' e'
  proof (rule then_not_rejected [OF p(2)])
    fix c a
    from assms(2) obtain b where "f a = Inr (Plain b)" by blast
    then show "\<exists>v. f a = Inr v \<and> (\<forall>q. v = Thenable q \<longrightarrow> (\<forall>c' e. q \<noteq> Rejects c' e))"
      by simp
  qed
  with p(1) show ?thesis
    unfolding not_fails_iff by (simp add: map_task_def)
qed

lemma not_fails_chain:
  assumes "\<forall>u. \<not> fails (ma u)" "\<forall>v. \<exists>mb. k v = Inr mb \<and> (\<forall>u. \<not> fails (mb u))"
  shows "\<not> fails (chain_task k ma t)"
proof -
  from assms(1) obtain p where p: "ma t = Inr p" "\<forall>c e. p \<noteq> Rejects c e"
    unfolding not_fails_iff by blast
  let ?f = "\<lambda>c a. case k a of Inl e \<Rightarrow> Inl e
              | Inr mb \<Rightarrow> (case mb c of Inl e \<Rightarrow> Inl e | Inr q \<Rightarrow> Inr (Thenable q))"
  have "Promise_then t p ?f \<noteq> Rejects c' e'" for c' e'
  proof (rule then_not_rejected [OF p(2)])
    fix c a
    from assms(2) obtain mb where mb: "k a = Inr mb" "\<forall>u. \<not> fails (mb u)" by blast
    from mb(2) obtain q where "mb c = Inr q" "\<forall>c e. q \<noteq> Rejects c e"
      unfolding not_fails_iff by blast
    with mb(1)
    show "\<exists>v. ?f c a = Inr v \<and> (\<forall>q. v = Thenable q \<longrightarrow> (\<forall>c' e. q \<noteq> Rejects c' e))"
      by simp
  qed
  with p(1) show ?thesis
    unfolding not_fails_iff by (simp add: chain_task_def)
qed

lemma all2_not_rejected:
  assumes "\<forall>c e. p \<noteq> Rejects c e" "\<forall>c e. q \<noteq> Rejects c e"
  shows "Promise_all2 first t p q \<noteq> Rejects c' e'"
  using assms by (cases p; cases q) (simp_all add: Promise_all2_def)

lemma all2_fulfils:
  "Promise_all2 first t p q = Fulfils c (g, a) \<Longrightarrow> \<exists>t1. p = Fulfils t1 g"
  by (cases p; cases q) (simp_all add: Promise_all2_def split: if_splits)

lemma not_fails_ap:
  assumes "\<forall>u. \<not> fails (fa u)" "\<forall>u. \<not> fails (fab u)"
    "\<forall>u t1 g. fab u = Inr (Fulfils t1 g) \<longrightarrow> (\<forall>v. \<exists>b. g v = Inr (Plain b))"
  shows "\<not> fails (ap first fa fab t)"
proof -
  from assms(1) obtain pa where pa: "fa t = Inr pa" "\<forall>c e. pa \<noteq> Rejects c e"
    unfolding not_fails_iff by blast
  from assms(2) obtain pf where pf: "fab t = Inr pf" "\<forall>c e. pf \<noteq> Rejects c e"
    unfolding not_fails_iff by blast
  let ?all = "Promise_all2 first t pf pa"
  have nr: "\<forall>c e. ?all \<noteq> Rejects c e"
    using all2_not_rejected [OF pf(2) pa(2)] by blast
  have "Promise_then t ?all (\<lambda>c (f, a). f a) \<noteq> Rejects c' e'" for c' e'
  proof (cases ?all)
    case Never_settles
    then show ?thesis by (simp add: Promise_then_def later_def)
  next
    case (Rejects c e)
    with nr show ?thesis by simp
  next
    case (Fulfils c ga)
    obtain g a where ga: "ga = (g, a)" by (cases ga)
    from all2_fulfils [of first t pf pa c g a] Fulfils ga obtain t1 where "pf = Fulfils t1 g"
      by auto
    with pf(1) assms(3) obtain b where "g a = Inr (Plain b)" by blast
    with Fulfils ga show ?thesis
      by (simp add: Promise_then_def later_def resolve_with_def)
  qed
  with pa(1) pf(1) show ?thesis
    unfolding not_fails_iff by (simp add: ap_def)
qed

lemma not_fails_delay: "\<not> fails (delay turns millis ma t)"
  by (auto simp: delay_def fails_def Let_def split: sum.splits promise.splits)

lemma not_fails_fromIO:
  assumes "\<forall>u. \<exists>b. io u = Inr (Plain b)"
  shows "\<not> fails (fromIO io t)"
proof -
  from assms obtain b where "io t = Inr (Plain b)" by blast
  then show ?thesis
    by (simp add: fromIO_def Promise_resolve_def fails_def)
qed

text \<open>
  C3, amended. Each combinator of the module (\<open>of\<close>, \<open>map\<close>, \<open>chain\<close>, \<open>ap\<close>,
  \<open>delay\<close>, \<open>fromIO\<close>) keeps the Task contract when the values it is given are plain,
  that is, not themselves promises. Built from a plain value, from tasks that resolve
  whenever they are invoked and from functions that never throw and return plain values,
  the task resolves with a value (so it neither throws nor rejects); built from tasks that
  merely never fail (they may stay pending) and from such functions, the task never
  fails. This holds in whatever order the host runs the reactions of one turn (\<open>first\<close>)
  and however many turns a timer takes (\<open>turns\<close>).
\<close>

theorem task_combinators_never_fail:
  "(resolves (of_task (Plain a) t)
    \<and> ((\<forall>u. resolves (fa u)) \<and> (\<forall>v. \<exists>b. f v = Inr (Plain b)) \<longrightarrow> resolves (map_task f fa t))
    \<and> ((\<forall>u. resolves (ma u)) \<and> (\<forall>v. \<exists>mb. k v = Inr mb \<and> (\<forall>u. resolves (mb u)))
         \<longrightarrow> resolves (chain_task k ma t))
    \<and> ((\<forall>u. resolves (fa u))
           \<and> (\<forall>u. \<exists>t1 g. fab u = Inr (Fulfils t1 g) \<and> (\<forall>v. \<exists>b. g v = Inr (Plain b)))
         \<longrightarrow> resolves (ap first fa fab t))
    \<and> ((\<forall>u. resolves (ma u)) \<longrightarrow> resolves (delay turns millis ma t))
    \<and> ((\<forall>u. \<exists>b. io u = Inr (Plain b)) \<longrightarrow> resolves (fromIO io t)))
   \<and> (\<not> fails (of_task (Plain a) t)
    \<and> ((\<forall>u. \<not> fails (fa u)) \<and> (\<forall>v. \<exists>b. f v = Inr (Plain b)) \<longrightarrow> \<not> fails (map_task f fa t))
    \<and> ((\<forall>u. \<not> fails (ma u)) \<and> (\<forall>v. \<exists>mb. k v = Inr mb \<and> (\<forall>u. \<not> fails (mb u)))
         \<longrightarrow> \<not> fails (chain_task k ma t))
    \<and> ((\<forall>u. \<not> fails (fa u)) \<and> (\<forall>u. \<not> fails (fab u))
           \<and> (\<forall>u t1 g. fab u = Inr (Fulfils t1 g) \<longrightarrow> (\<forall>v. \<exists>b. g v = Inr (Plain b)))
         \<longrightarrow> \<not> fails (ap first fa fab t))
    \<and> \<not> fails (delay turns millis ma t)
    \<and> ((\<forall>u. \<exists>b. io u = Inr (Plain b)) \<longrightarrow> \<not> fails (fromIO io t)))"
proof -
  have 0: "resolves (of_task (Plain a) t)" "\<not> fails (of_task (Plain a) t)"
    by (simp_all add: of_task_def Promise_resolve_def resolves_def fails_def)
  have 1: "(\<forall>u. resolves (fa u)) \<and> (\<forall>v. \<exists>b. f v = Inr (Plain b))
             \<longrightarrow> resolves (map_task f fa t)"
    using resolves_map [of fa f t] by (intro impI) (elim conjE)
  have 2: "(\<forall>u. resolves (ma u)) \<and> (\<forall>v. \<exists>mb. k v = Inr mb \<and> (\<forall>u. resolves (mb u)))
             \<longrightarrow> resolves (chain_task k ma t)"
    using resolves_chain [of ma k t] by (intro impI) (elim conjE)
  have 3: "(\<forall>u. resolves (fa u))
             \<and> (\<forall>u. \<exists>t1 g. fab u = Inr (Fulfils t1 g) \<and> (\<forall>v. \<exists>b. g v = Inr (Plain b)))
             \<longrightarrow> resolves (ap first fa fab t)"
    using resolves_ap [of fa fab first t] by (intro impI) (elim conjE)
  have 4: "(\<forall>u. resolves (ma u)) \<longrightarrow> resolves (delay turns millis ma t)"
    using resolves_delay [of ma turns millis t] by (intro impI)
  have 5: "(\<forall>u. \<exists>b. io u = Inr (Plain b)) \<longrightarrow> resolves (fromIO io t)"
    using resolves_fromIO [of io t] by (intro impI)
  have 6: "(\<forall>u. \<not> fails (fa u)) \<and> (\<forall>v. \<exists>b. f v = Inr (Plain b))
             \<longrightarrow> \<not> fails (map_task f fa t)"
    using not_fails_map [of fa f t] by (intro impI) (elim conjE)
  have 7: "(\<forall>u. \<not> fails (ma u)) \<and> (\<forall>v. \<exists>mb. k v = Inr mb \<and> (\<forall>u. \<not> fails (mb u)))
             \<longrightarrow> \<not> fails (chain_task k ma t)"
    using not_fails_chain [of ma k t] by (intro impI) (elim conjE)
  have 8: "(\<forall>u. \<not> fails (fa u)) \<and> (\<forall>u. \<not> fails (fab u))
             \<and> (\<forall>u t1 g. fab u = Inr (Fulfils t1 g) \<longrightarrow> (\<forall>v. \<exists>b. g v = Inr (Plain b)))
             \<longrightarrow> \<not> fails (ap first fa fab t)"
    using not_fails_ap [of fa fab first t] by (intro impI) (elim conjE)
  have 9: "(\<forall>u. \<exists>b. io u = Inr (Plain b)) \<longrightarrow> \<not> fails (fromIO io t)"
    using not_fails_fromIO [of io t] by (intro impI)
  from 0 1 2 3 4 5 6 7 8 9 not_fails_delay [of turns millis ma t] show ?thesis
    by (intro conjI)
qed

theorem task_combinators_never_fail_witness:
  "resolves (map_task (\<lambda>n. Inr (Plain (n + 1))) (of_task (Plain (1 :: nat))) 5)
   \<and> resolves (chain_task (\<lambda>n. Inr (of_task (Plain (n + 1)))) (of_task (Plain (1 :: nat))) 5)
   \<and> resolves (ap True (of_task (Plain (1 :: nat))) (of_task (Plain (\<lambda>n. Inr (Plain (n + 1))))) 5)
   \<and> resolves (delay (\<lambda>t ms. nat ms) 10 (of_task (Plain (1 :: nat))) 5)
   \<and> resolves (fromIO (\<lambda>t. Inr (Plain (3 :: nat))) 5)
   \<and> \<not> fails (map_task (\<lambda>n. Inr (Plain (n + 1))) (never :: nat Task) 5)
   \<and> \<not> fails (chain_task (\<lambda>n. Inr (of_task (Plain (n + 1)))) (never :: nat Task) 5)
   \<and> \<not> fails (ap True (never :: nat Task) (of_task (Plain (\<lambda>n. Inr (Plain (n + 1))))) 5)
   \<and> \<not> fails (fromIO (\<lambda>t. Inr (Plain (3 :: nat))) 5)
   \<and> map_task (\<lambda>n. Inr (Plain (n + 1))) (of_task (Plain (1 :: nat))) 5 = Inr (Fulfils 5 2)
   \<and> delay (\<lambda>t ms. nat ms) 10 (of_task (Plain (1 :: nat))) 5 = Inr (Fulfils 16 1)"
proof -
  have ok: "\<forall>u. resolves (of_task (Plain a) u)" for a :: 'x
    by (simp add: of_task_def Promise_resolve_def resolves_def)
  have nf: "\<forall>u. \<not> fails (of_task (Plain a) u)" for a :: 'x
    by (simp add: of_task_def Promise_resolve_def fails_def)
  have nv: "\<forall>u. \<not> fails ((never :: nat Task) u)"
    by (simp add: never_def fails_def)
  have f: "\<forall>v :: nat. \<exists>b. (Inr (Plain (v + 1)) :: string + nat jsval) = Inr (Plain b)"
    by simp
  have k: "\<forall>v :: nat. \<exists>mb. (Inr (of_task (Plain (v + 1))) :: string + nat Task) = Inr mb
             \<and> (\<forall>u. resolves (mb u))"
    by (simp add: ok)
  have k': "\<forall>v :: nat. \<exists>mb. (Inr (of_task (Plain (v + 1))) :: string + nat Task) = Inr mb
             \<and> (\<forall>u. \<not> fails (mb u))"
    by (simp add: nf)
  have g: "\<forall>u. \<exists>t1 g. of_task (Plain (\<lambda>n :: nat. Inr (Plain (n + 1)) :: string + nat jsval)) u
                 = Inr (Fulfils t1 g)
             \<and> (\<forall>v. \<exists>b. g v = Inr (Plain b))"
    by (simp add: of_task_def Promise_resolve_def)
  have g': "\<forall>u t1 g. of_task (Plain (\<lambda>n :: nat. Inr (Plain (n + 1)) :: string + nat jsval)) u
                 = Inr (Fulfils t1 g)
             \<longrightarrow> (\<forall>v. \<exists>b. g v = Inr (Plain b))"
    by (auto simp: of_task_def Promise_resolve_def)
  have io: "\<forall>u :: nat. \<exists>b. (Inr (Plain (3 :: nat)) :: string + nat jsval) = Inr (Plain b)"
    by simp
  note t = task_combinators_never_fail
    [where f = "\<lambda>n :: nat. Inr (Plain (n + 1)) :: string + nat jsval"
       and fa = "of_task (Plain (1 :: nat))"
       and k = "\<lambda>n :: nat. Inr (of_task (Plain (n + 1))) :: string + nat Task"
       and ma = "of_task (Plain (1 :: nat))"
       and fab = "of_task (Plain (\<lambda>n :: nat. Inr (Plain (n + 1)) :: string + nat jsval))"
       and io = "\<lambda>t. Inr (Plain (3 :: nat))" and t = 5 and millis = 10
       and turns = "\<lambda>t ms. nat ms" and first = True and a = "1 :: nat",
     THEN conjunct1]
  note t2 = task_combinators_never_fail
    [where f = "\<lambda>n :: nat. Inr (Plain (n + 1)) :: string + nat jsval"
       and fa = "never :: nat Task"
       and k = "\<lambda>n :: nat. Inr (of_task (Plain (n + 1))) :: string + nat Task"
       and ma = "never :: nat Task"
       and fab = "of_task (Plain (\<lambda>n :: nat. Inr (Plain (n + 1)) :: string + nat jsval))"
       and io = "\<lambda>t. Inr (Plain (3 :: nat))" and t = 5 and millis = 10
       and turns = "\<lambda>t ms. nat ms" and first = True and a = "1 :: nat",
     THEN conjunct2]
  have 1: "resolves (map_task (\<lambda>n. Inr (Plain (n + 1))) (of_task (Plain (1 :: nat))) 5)"
    by (rule mp [OF t [THEN conjunct2, THEN conjunct1]]) (intro conjI ok f)
  have 2: "resolves (chain_task (\<lambda>n. Inr (of_task (Plain (n + 1)))) (of_task (Plain (1 :: nat))) 5)"
    by (rule mp [OF t [THEN conjunct2, THEN conjunct2, THEN conjunct1]])
      (intro conjI ok k)
  have 3: "resolves (ap True (of_task (Plain (1 :: nat)))
             (of_task (Plain (\<lambda>n. Inr (Plain (n + 1))))) 5)"
    by (rule mp [OF t [THEN conjunct2, THEN conjunct2, THEN conjunct2, THEN conjunct1]])
      (intro conjI ok g)
  have 4: "resolves (delay (\<lambda>t ms. nat ms) 10 (of_task (Plain (1 :: nat))) 5)"
    by (rule mp [OF t [THEN conjunct2, THEN conjunct2, THEN conjunct2, THEN conjunct2,
              THEN conjunct1]]) (rule ok)
  have 5: "resolves (fromIO (\<lambda>t. Inr (Plain (3 :: nat))) 5)"
    by (rule mp [OF t [THEN conjunct2, THEN conjunct2, THEN conjunct2, THEN conjunct2,
              THEN conjunct2]]) (rule io)
  have 6: "\<not> fails (map_task (\<lambda>n. Inr (Plain (n + 1))) (never :: nat Task) 5)"
    by (rule mp [OF t2 [THEN conjunct2, THEN conjunct1]]) (intro conjI nv f)
  have 7: "\<not> fails (chain_task (\<lambda>n. Inr (of_task (Plain (n + 1)))) (never :: nat Task) 5)"
    by (rule mp [OF t2 [THEN conjunct2, THEN conjunct2, THEN conjunct1]])
      (intro conjI nv k')
  have 8: "\<not> fails (ap True (never :: nat Task)
             (of_task (Plain (\<lambda>n. Inr (Plain (n + 1))))) 5)"
    by (rule mp [OF t2 [THEN conjunct2, THEN conjunct2, THEN conjunct2, THEN conjunct1]])
      (intro conjI nv nf g')
  have 9: "\<not> fails (fromIO (\<lambda>t. Inr (Plain (3 :: nat))) 5)"
    by (rule mp [OF t2 [THEN conjunct2, THEN conjunct2, THEN conjunct2, THEN conjunct2,
              THEN conjunct2]]) (rule io)
  have 10: "map_task (\<lambda>n. Inr (Plain (n + 1))) (of_task (Plain (1 :: nat))) 5
              = Inr (Fulfils 5 2)"
    by (simp add: map_task_def of_task_def Promise_resolve_def Promise_then_def later_def
        resolve_with_def)
  have 11: "delay (\<lambda>t ms. nat ms) 10 (of_task (Plain (1 :: nat))) 5 = Inr (Fulfils 16 1)"
    by (simp add: delay_def of_task_def Promise_resolve_def later_def)
  from 1 2 3 4 5 6 7 8 9 10 11 show ?thesis by (intro conjI)
qed

text \<open>
  C3 as stated fails. The module's own task \<open>never\<close> never rejects, and a task mapped
  over it with a function that never throws stays pending: it does not resolve with a
  value. And a value that is itself a promise is adopted by the host: \<open>of\<close> applied to a
  rejected promise is a task that rejects.
\<close>

theorem pending_component_counterexample:
  "\<not> ((\<forall>u. \<not> fails ((never :: nat Task) u))
        \<and> (\<forall>v :: nat. \<exists>b. (Inr (Plain v) :: string + nat jsval) = Inr (Plain b))
        \<longrightarrow> resolves (map_task (\<lambda>v. Inr (Plain v)) (never :: nat Task) 0))
   \<and> fails (of_task (Thenable (Rejects 0 ''e'' :: nat promise)) 1)"
  by (simp add: never_def fails_def resolves_def map_task_def Promise_then_def later_def
      of_task_def Promise_resolve_def)

section \<open>Concatenation of tasks\<close>










end
